theory Spec2Isabelle
  imports Main "HOL-Library.Code_Target_Nat"
begin

section \<open>Text\<close>

text \<open>
  A JavaScript string is a sequence of UTF-16 code units; \<open>length\<close>, \<open>slice\<close>,
  \<open>indexOf\<close>, \<open>startsWith\<close>, \<open>endsWith\<close> and \<open>trim\<close> all work on code units.
  The model keeps a string as the list of its code units. The chunks of the response
  body are bytes, which the decoder of \<open>streamChat\<close> turns into code units.
\<close>

type_synonym jstring = "nat list"

definition ch :: "char \<Rightarrow> nat" where
  "ch c = of_char c"

definition asc :: "string \<Rightarrow> jstring" where
  "asc s = map ch s"

definition NL :: nat where
  "NL = 10"

definition CR :: nat where
  "CR = 13"

definition DQUOTE :: nat where
  "DQUOTE = 34"

text \<open>\<open>s.indexOf(c)\<close>: the first index of \<open>c\<close>; \<open>None\<close> stands for \<open>-1\<close>.\<close>

fun indexOf :: "nat \<Rightarrow> jstring \<Rightarrow> nat option" where
  "indexOf c [] = None"
| "indexOf c (x # xs) =
     (if x = c then Some 0 else map_option Suc (indexOf c xs))"

definition startsWith :: "jstring \<Rightarrow> jstring \<Rightarrow> bool" where
  "startsWith p s = (take (length p) s = p)"

definition endsWith :: "jstring \<Rightarrow> jstring \<Rightarrow> bool" where
  "endsWith p s = (length p \<le> length s \<and> drop (length s - length p) s = p)"

text \<open>
  The code units that \<open>String.prototype.trim\<close> removes: WhiteSpace and LineTerminator
  of ECMAScript (TAB, LF, VT, FF, CR, SP, NBSP, U+1680, U+2000 to U+200A, U+2028,
  U+2029, U+202F, U+205F, U+3000, U+FEFF).
\<close>

definition isWhiteSpace :: "nat \<Rightarrow> bool" where
  "isWhiteSpace c =
     ((9 \<le> c \<and> c \<le> 13) \<or> c = 32 \<or> c = 160 \<or> c = 5760 \<or> (8192 \<le> c \<and> c \<le> 8202)
      \<or> c = 8232 \<or> c = 8233 \<or> c = 8239 \<or> c = 8287 \<or> c = 12288 \<or> c = 65279)"

definition trim :: "jstring \<Rightarrow> jstring" where
  "trim s = rev (dropWhile isWhiteSpace (rev (dropWhile isWhiteSpace s)))"

section \<open>JSON values and \<open>JSON.parse\<close>\<close>

text \<open>
  The value \<open>JSON.parse\<close> returns. A Number is an IEEE double, which the model leaves
  abstract: the type \<open>'n\<close> with the three operations the program can apply to it,
  collected in the record \<open>platform\<close>.
\<close>

datatype 'n json =
    JNull
  | JBool bool
  | JNum 'n
  | JStr jstring
  | JArr "'n json list"
  | JObj "(jstring \<times> 'n json) list"

record 'n platform =
  numberOf :: "jstring \<Rightarrow> 'n"
  numberTruthy :: "'n \<Rightarrow> bool"
  numberToString :: "'n \<Rightarrow> jstring"

datatype token =
    TLBrace | TRBrace | TLBrack | TRBrack | TColon | TComma
  | TStr jstring | TNum jstring | TTrue | TFalse | TNull

definition isDigit :: "nat \<Rightarrow> bool" where
  "isDigit c = (48 \<le> c \<and> c \<le> 57)"

definition hexVal :: "nat \<Rightarrow> nat option" where
  "hexVal c =
     (if 48 \<le> c \<and> c \<le> 57 then Some (c - 48)
      else if 65 \<le> c \<and> c \<le> 70 then Some (c - 55)
      else if 97 \<le> c \<and> c \<le> 102 then Some (c - 87)
      else None)"

fun hex4 :: "jstring \<Rightarrow> nat option" where
  "hex4 (a # b # c # d # _) =
     (case (hexVal a, hexVal b, hexVal c, hexVal d) of
        (Some x, Some y, Some z, Some w) \<Rightarrow> Some (((x * 16 + y) * 16 + z) * 16 + w)
      | _ \<Rightarrow> None)"
| "hex4 _ = None"

definition simpleEscape :: "nat \<Rightarrow> nat option" where
  "simpleEscape e =
     (if e = DQUOTE then Some DQUOTE
      else if e = ch CHR 0x5C then Some (ch CHR 0x5C)
      else if e = ch CHR ''/'' then Some (ch CHR ''/'')
      else if e = ch CHR ''b'' then Some 8
      else if e = ch CHR ''f'' then Some 12
      else if e = ch CHR ''n'' then Some 10
      else if e = ch CHR ''r'' then Some 13
      else if e = ch CHR ''t'' then Some 9
      else None)"

text \<open>
  The characters of a JSON string after its opening quote, up to the closing quote:
  the string's value and how many code units were taken, the closing quote included.
\<close>

fun scanString :: "jstring \<Rightarrow> nat \<Rightarrow> jstring \<Rightarrow> (jstring \<times> nat) option" where
  "scanString acc n [] = None"
| "scanString acc n (c # cs) =
     (if c = DQUOTE then Some (rev acc, Suc n)
      else if c = ch CHR 0x5C then
        (case cs of
           [] \<Rightarrow> None
         | e # cs' \<Rightarrow>
             if e = ch CHR ''u'' then
               (case hex4 cs' of
                  None \<Rightarrow> None
                | Some u \<Rightarrow> scanString (u # acc) (n + 6) (drop 4 cs'))
             else
               (case simpleEscape e of
                  None \<Rightarrow> None
                | Some x \<Rightarrow> scanString (x # acc) (n + 2) cs'))
      else if c < 32 then None
      else scanString (c # acc) (Suc n) cs)"

text \<open>
  A JSON number at the head of the text, by the grammar
  \<open>-? (0 | [1-9][0-9]*) (. [0-9]+)? ([eE] [+-]? [0-9]+)?\<close>: how many code units it takes.
\<close>

definition scanInt :: "jstring \<Rightarrow> nat option" where
  "scanInt cs =
     (case cs of
        [] \<Rightarrow> None
      | d # ds \<Rightarrow>
          if d = 48 then Some 1
          else if isDigit d then Some (Suc (length (takeWhile isDigit ds)))
          else None)"

definition scanFrac :: "jstring \<Rightarrow> nat option" where
  "scanFrac cs =
     (case cs of
        [] \<Rightarrow> Some 0
      | d # ds \<Rightarrow>
          if d = ch CHR ''.'' then
            (if takeWhile isDigit ds = [] then None
             else Some (Suc (length (takeWhile isDigit ds))))
          else Some 0)"

definition scanExp :: "jstring \<Rightarrow> nat option" where
  "scanExp cs =
     (case cs of
        [] \<Rightarrow> Some 0
      | e # es \<Rightarrow>
          if e = ch CHR ''e'' \<or> e = ch CHR ''E'' then
            (let k = (case es of
                        [] \<Rightarrow> 0
                      | s # _ \<Rightarrow> if s = ch CHR ''+'' \<or> s = ch CHR ''-'' then 1 else (0::nat))
             in if takeWhile isDigit (drop k es) = [] then None
                else Some (Suc (k + length (takeWhile isDigit (drop k es)))))
          else Some 0)"

definition scanNumber :: "jstring \<Rightarrow> nat option" where
  "scanNumber cs =
     (let s = (case cs of [] \<Rightarrow> 0 | c # _ \<Rightarrow> if c = ch CHR ''-'' then 1 else (0::nat)) in
      case scanInt (drop s cs) of
        None \<Rightarrow> None
      | Some i \<Rightarrow>
          (case scanFrac (drop (s + i) cs) of
             None \<Rightarrow> None
           | Some f \<Rightarrow>
               (case scanExp (drop (s + i + f) cs) of
                  None \<Rightarrow> None
                | Some e \<Rightarrow> Some (s + i + f + e))))"

definition isJsonSpace :: "nat \<Rightarrow> bool" where
  "isJsonSpace c = (c = 32 \<or> c = 9 \<or> c = 10 \<or> c = 13)"

fun tokenize :: "jstring \<Rightarrow> token list option" where
  "tokenize [] = Some []"
| "tokenize (c # cs) =
     (if isJsonSpace c then tokenize cs
      else if c = ch CHR ''{'' then map_option ((#) TLBrace) (tokenize cs)
      else if c = ch CHR ''}'' then map_option ((#) TRBrace) (tokenize cs)
      else if c = ch CHR ''['' then map_option ((#) TLBrack) (tokenize cs)
      else if c = ch CHR '']'' then map_option ((#) TRBrack) (tokenize cs)
      else if c = ch CHR '':'' then map_option ((#) TColon) (tokenize cs)
      else if c = ch CHR '','' then map_option ((#) TComma) (tokenize cs)
      else if c = DQUOTE then
        (case scanString [] 0 cs of
           None \<Rightarrow> None
         | Some (s, n) \<Rightarrow> map_option ((#) (TStr s)) (tokenize (drop n cs)))
      else if c = ch CHR ''-'' \<or> isDigit c then
        (case scanNumber (c # cs) of
           None \<Rightarrow> None
         | Some n \<Rightarrow> map_option ((#) (TNum (take n (c # cs)))) (tokenize (drop (n - 1) cs)))
      else if startsWith (asc ''true'') (c # cs) then
        map_option ((#) TTrue) (tokenize (drop 3 cs))
      else if startsWith (asc ''false'') (c # cs) then
        map_option ((#) TFalse) (tokenize (drop 4 cs))
      else if startsWith (asc ''null'') (c # cs) then
        map_option ((#) TNull) (tokenize (drop 3 cs))
      else None)"

text \<open>
  The parser proper works on the tokens with an explicit stack of the arrays and
  objects that are still open.
\<close>

datatype 'n frame =
    FArr "'n json list"
  | FObj "(jstring \<times> 'n json) list"
  | FKey "(jstring \<times> 'n json) list" jstring

datatype 'n mode =
    WantValue
  | WantValueOrEnd
  | WantKeyOrEnd
  | WantKey
  | WantColon
  | WantCommaOrEnd
  | Finished "'n json"

fun deliver :: "'n json \<Rightarrow> 'n frame list \<Rightarrow> ('n mode \<times> 'n frame list) option" where
  "deliver v [] = Some (Finished v, [])"
| "deliver v (FArr xs # fs) = Some (WantCommaOrEnd, FArr (v # xs) # fs)"
| "deliver v (FKey kvs k # fs) = Some (WantCommaOrEnd, FObj ((k, v) # kvs) # fs)"
| "deliver v (FObj kvs # fs) = None"

fun scalar :: "'n platform \<Rightarrow> token \<Rightarrow> 'n json option" where
  "scalar P (TStr s) = Some (JStr s)"
| "scalar P (TNum l) = Some (JNum (numberOf P l))"
| "scalar P TTrue = Some (JBool True)"
| "scalar P TFalse = Some (JBool False)"
| "scalar P TNull = Some JNull"
| "scalar P _ = None"

fun wantValue :: "'n platform \<Rightarrow> 'n frame list \<Rightarrow> token \<Rightarrow> ('n mode \<times> 'n frame list) option" where
  "wantValue P fs TLBrack = Some (WantValueOrEnd, FArr [] # fs)"
| "wantValue P fs TLBrace = Some (WantKeyOrEnd, FObj [] # fs)"
| "wantValue P fs t = (case scalar P t of None \<Rightarrow> None | Some v \<Rightarrow> deliver v fs)"

fun closeArr :: "'n frame list \<Rightarrow> ('n mode \<times> 'n frame list) option" where
  "closeArr (FArr xs # fs) = deliver (JArr (rev xs)) fs"
| "closeArr _ = None"

fun closeObj :: "'n frame list \<Rightarrow> ('n mode \<times> 'n frame list) option" where
  "closeObj (FObj kvs # fs) = deliver (JObj (rev kvs)) fs"
| "closeObj _ = None"

fun wantKey :: "'n frame list \<Rightarrow> token \<Rightarrow> ('n mode \<times> 'n frame list) option" where
  "wantKey (FObj kvs # fs) (TStr k) = Some (WantColon, FKey kvs k # fs)"
| "wantKey _ _ = None"

fun afterValue :: "'n frame list \<Rightarrow> token \<Rightarrow> ('n mode \<times> 'n frame list) option" where
  "afterValue (FArr xs # fs) TComma = Some (WantValue, FArr xs # fs)"
| "afterValue (FObj kvs # fs) TComma = Some (WantKey, FObj kvs # fs)"
| "afterValue fs TRBrack = closeArr fs"
| "afterValue fs TRBrace = closeObj fs"
| "afterValue _ _ = None"

fun step :: "'n platform \<Rightarrow> 'n mode \<Rightarrow> 'n frame list \<Rightarrow> token \<Rightarrow> ('n mode \<times> 'n frame list) option" where
  "step P WantValue fs t = wantValue P fs t"
| "step P WantValueOrEnd fs t = (if t = TRBrack then closeArr fs else wantValue P fs t)"
| "step P WantKeyOrEnd fs t = (if t = TRBrace then closeObj fs else wantKey fs t)"
| "step P WantKey fs t = wantKey fs t"
| "step P WantColon fs t = (if t = TColon then Some (WantValue, fs) else None)"
| "step P WantCommaOrEnd fs t = afterValue fs t"
| "step P (Finished v) fs t = None"

fun parseTokens :: "'n platform \<Rightarrow> 'n mode \<Rightarrow> 'n frame list \<Rightarrow> token list \<Rightarrow> 'n json option" where
  "parseTokens P m fs [] = (case m of Finished v \<Rightarrow> Some v | _ \<Rightarrow> None)"
| "parseTokens P m fs (t # ts) =
     (case step P m fs t of
        None \<Rightarrow> None
      | Some (m', fs') \<Rightarrow> parseTokens P m' fs' ts)"

text \<open>\<open>JSON.parse(s)\<close>; \<open>None\<close> is the SyntaxError it throws.\<close>

definition JSON_parse :: "'n platform \<Rightarrow> jstring \<Rightarrow> 'n json option" where
  "JSON_parse P s =
     (case tokenize s of
        None \<Rightarrow> None
      | Some ts \<Rightarrow> parseTokens P WantValue [] ts)"

section \<open>Reading the delta out of the parsed value\<close>

text \<open>
  \<open>v.name\<close> for a property name that no built-in prototype defines (the program reads
  \<open>choices\<close>, \<open>delta\<close> and \<open>content\<close>): only an object has it, as an own property;
  \<open>JSON.parse\<close> keeps the last of several members with the same key. \<open>None\<close> is
  \<open>undefined\<close>.
\<close>

definition member :: "jstring \<Rightarrow> 'n json \<Rightarrow> 'n json option" where
  "member k v = (case v of JObj kvs \<Rightarrow> map_of (rev kvs) k | _ \<Rightarrow> None)"

text \<open>
  \<open>v[0]\<close>: the first element of an array, the own property \<open>"0"\<close> of an object, the
  first code unit of a string.
\<close>

definition index0 :: "'n json \<Rightarrow> 'n json option" where
  "index0 v =
     (case v of
        JArr xs \<Rightarrow> (case xs of [] \<Rightarrow> None | x # _ \<Rightarrow> Some x)
      | JObj kvs \<Rightarrow> map_of (rev kvs) (asc ''0'')
      | JStr s \<Rightarrow> (case s of [] \<Rightarrow> None | c # _ \<Rightarrow> Some (JStr [c]))
      | _ \<Rightarrow> None)"

text \<open>An optional-chaining step \<open>v?.p\<close>: \<open>undefined\<close> when \<open>v\<close> is \<open>undefined\<close> or \<open>null\<close>.\<close>

definition optional :: "('n json \<Rightarrow> 'n json option) \<Rightarrow> 'n json option \<Rightarrow> 'n json option" where
  "optional f v =
     (case v of
        None \<Rightarrow> None
      | Some JNull \<Rightarrow> None
      | Some x \<Rightarrow> f x)"

datatype js_error = SyntaxError | TypeError

text \<open>
  \<open>parsed.choices?.[0]?.delta?.content\<close>. The first access is not optional: on
  \<open>null\<close> it throws a TypeError.
\<close>

definition deltaContent :: "'n json \<Rightarrow> js_error + 'n json option" where
  "deltaContent parsed =
     (case parsed of
        JNull \<Rightarrow> Inl TypeError
      | _ \<Rightarrow>
          Inr (optional (member (asc ''content''))
                (optional (member (asc ''delta''))
                  (optional index0 (member (asc ''choices'') parsed)))))"

text \<open>\<open>if (content)\<close>: ToBoolean.\<close>

fun truthy :: "'n platform \<Rightarrow> 'n json option \<Rightarrow> bool" where
  "truthy P None = False"
| "truthy P (Some JNull) = False"
| "truthy P (Some (JBool b)) = b"
| "truthy P (Some (JNum n)) = numberTruthy P n"
| "truthy P (Some (JStr s)) = (s \<noteq> [])"
| "truthy P (Some (JArr xs)) = True"
| "truthy P (Some (JObj kvs)) = True"

fun joinComma :: "jstring list \<Rightarrow> jstring" where
  "joinComma [] = []"
| "joinComma [x] = x"
| "joinComma (x # y # ys) = x @ ch CHR '','' # joinComma (y # ys)"

text \<open>
  \<open>assistantContent += content\<close> converts \<open>content\<close> with ToString. An array
  joins its elements with commas, \<open>null\<close> elements giving the empty string. An object
  gives \<open>[object Object]\<close> through \<open>Object.prototype.toString\<close>, unless it has a
  member named \<open>toString\<close> of its own: that member, which is no function, hides the
  inherited one, and the conversion throws a TypeError (\<open>None\<close>).
\<close>

fun toString :: "'n platform \<Rightarrow> 'n json \<Rightarrow> jstring option" where
  "toString P JNull = Some (asc ''null'')"
| "toString P (JBool b) = Some (if b then asc ''true'' else asc ''false'')"
| "toString P (JNum n) = Some (numberToString P n)"
| "toString P (JStr s) = Some s"
| "toString P (JArr xs) =
     map_option joinComma
       (those (map (\<lambda>x. case x of JNull \<Rightarrow> Some [] | _ \<Rightarrow> toString P x) xs))"
| "toString P (JObj kvs) =
     (if List.member (map fst kvs) (asc ''toString'') then None
      else Some (asc ''[object Object]''))"

section \<open>The transcript\<close>

datatype role = User | Assistant

record message =
  role :: role
  content :: jstring

text \<open>
  The function given to \<open>setMessages\<close> in \<open>streamChat\<close>, for the value
  \<open>assistantContent\<close> has when it runs.
\<close>

definition updater :: "jstring \<Rightarrow> message list \<Rightarrow> message list" where
  "updater ac prev =
     (if prev \<noteq> [] \<and> role (last prev) = Assistant \<and> length prev > 1 then
        map (\<lambda>(m, i). if i = length prev - 1 then m\<lparr>content := ac\<rparr> else m)
          (zip prev [0..<length prev])
      else prev @ [\<lparr>role = Assistant, content = ac\<rparr>])"

section \<open>The decoder\<close>

text \<open>
  A chunk of the body is a \<open>Uint8Array\<close>: a list of bytes. \<open>new TextDecoder()\<close>
  is a UTF-8 decoder that replaces malformed input by U+FFFD and drops one byte order
  mark at the start of the stream; with \<open>{stream: true}\<close> it keeps its state from one
  \<open>decode\<close> to the next, so that a character whose bytes arrive in two chunks is
  decoded once it is complete. The model follows the Encoding Standard: the state of
  the UTF-8 decoder with the \<open>BOM seen\<close> flag, the handler for one byte, and the
  serialisation of the scalar values into code units.
\<close>

type_synonym bytes = string

record decoder =
  codePoint :: nat
  bytesSeen :: nat
  bytesNeeded :: nat
  lowerBoundary :: nat
  upperBoundary :: nat
  bomSeen :: bool

definition newDecoder :: decoder where
  "newDecoder =
     \<lparr>codePoint = 0, bytesSeen = 0, bytesNeeded = 0, lowerBoundary = 128,
      upperBoundary = 191, bomSeen = False\<rparr>"

text \<open>
  The handler when no byte of a sequence is pending. \<open>b mod 32\<close> is \<open>b & 0x1F\<close>,
  and so on; the scalar value 65533 is U+FFFD.
\<close>

definition lead :: "decoder \<Rightarrow> nat \<Rightarrow> decoder \<times> nat list" where
  "lead d b =
     (if b \<le> 127 then (d, [b])
      else if 194 \<le> b \<and> b \<le> 223 then
        (d\<lparr>bytesNeeded := 1, codePoint := b mod 32\<rparr>, [])
      else if 224 \<le> b \<and> b \<le> 239 then
        (d\<lparr>lowerBoundary := (if b = 224 then 160 else lowerBoundary d),
           upperBoundary := (if b = 237 then 159 else upperBoundary d),
           bytesNeeded := 2, codePoint := b mod 16\<rparr>, [])
      else if 240 \<le> b \<and> b \<le> 244 then
        (d\<lparr>lowerBoundary := (if b = 240 then 144 else lowerBoundary d),
           upperBoundary := (if b = 244 then 143 else upperBoundary d),
           bytesNeeded := 3, codePoint := b mod 8\<rparr>, [])
      else (d, [65533]))"

text \<open>
  The handler for one byte, with the scalar values it gives out. A byte outside the
  boundaries ends the pending sequence with an error and is then handled again, as
  the first byte of what follows. \<open>c * 64 + b mod 64\<close> is \<open>(c << 6) | (b & 0x3F)\<close>.
\<close>

definition handler :: "decoder \<Rightarrow> nat \<Rightarrow> decoder \<times> nat list" where
  "handler d b =
     (if bytesNeeded d = 0 then lead d b
      else if b < lowerBoundary d \<or> upperBoundary d < b then
        (case lead (d\<lparr>codePoint := 0, bytesNeeded := 0, bytesSeen := 0,
                       lowerBoundary := 128, upperBoundary := 191\<rparr>) b of
           (d', out) \<Rightarrow> (d', 65533 # out))
      else
        (let d1 = d\<lparr>lowerBoundary := 128, upperBoundary := 191,
                     codePoint := codePoint d * 64 + b mod 64,
                     bytesSeen := bytesSeen d + 1\<rparr>
         in if bytesSeen d1 \<noteq> bytesNeeded d1 then (d1, [])
            else (d1\<lparr>codePoint := 0, bytesNeeded := 0, bytesSeen := 0\<rparr>, [codePoint d1])))"

text \<open>The code units of a scalar value: itself, or a surrogate pair.\<close>

definition codeUnits :: "nat \<Rightarrow> jstring" where
  "codeUnits c =
     (if c < 65536 then [c]
      else [55296 + (c - 65536) div 1024, 56320 + (c - 65536) mod 1024])"

text \<open>
  The serialisation of the scalar values: the first one of the stream sets
  \<open>BOM seen\<close>, and is dropped when it is U+FEFF.
\<close>

fun serialize :: "decoder \<Rightarrow> nat list \<Rightarrow> decoder \<times> jstring" where
  "serialize d [] = (d, [])"
| "serialize d (c # cs) =
     (if \<not> bomSeen d then
        (case serialize (d\<lparr>bomSeen := True\<rparr>) cs of
           (d', out) \<Rightarrow> (d', (if c = 65279 then [] else codeUnits c) @ out))
      else
        (case serialize d cs of (d', out) \<Rightarrow> (d', codeUnits c @ out)))"

text \<open>
  \<open>decoder.decode(value, {stream: true})\<close>: the decoder after the bytes of the
  chunk, and the text for them. No call ever flushes the decoder.
\<close>

fun decode :: "decoder \<Rightarrow> bytes \<Rightarrow> decoder \<times> jstring" where
  "decode d [] = (d, [])"
| "decode d (b # bs) =
     (case handler d (of_char b) of
        (d1, scalars) \<Rightarrow>
          (case serialize d1 scalars of
             (d2, out) \<Rightarrow>
               (case decode d2 bs of (d3, out') \<Rightarrow> (d3, out @ out'))))"

section \<open>The stream loop of \<open>streamChat\<close>\<close>

text \<open>
  Three local variables of \<open>streamChat\<close> and the component's \<open>messages\<close>; the
  decoder, a local variable too, is passed beside this record. Each
  \<open>setMessages\<close> call is applied at once; the transcript at a read is the same when
  the framework applies the queued functions later, since the last one stores the
  current \<open>assistantContent\<close>.
\<close>

record chat_state =
  textBuffer :: jstring
  streamDone :: bool
  assistantContent :: jstring
  messages :: "message list"

text \<open>
  The \<open>try\<close> block (lines 72 to 85). \<open>Inl\<close> is the exception that the \<open>catch\<close>
  receives; the three steps that can throw come before any assignment.
\<close>

definition tryBlock :: "'n platform \<Rightarrow> jstring \<Rightarrow> chat_state \<Rightarrow> js_error + chat_state" where
  "tryBlock P jsonStr st =
     (case JSON_parse P jsonStr of
        None \<Rightarrow> Inl SyntaxError
      | Some parsed \<Rightarrow>
          (case deltaContent parsed of
             Inl e \<Rightarrow> Inl e
           | Inr c \<Rightarrow>
               if truthy P c then
                 (case c of
                    None \<Rightarrow> Inr st
                  | Some v \<Rightarrow>
                      (case toString P v of
                         None \<Rightarrow> Inl TypeError
                       | Some t \<Rightarrow>
                           let ac = assistantContent st @ t
                           in Inr (st\<lparr>assistantContent := ac,
                                     messages := updater ac (messages st)\<rparr>)))
               else Inr st))"

datatype flow = Continue | Break

text \<open>
  The body of the inner \<open>while\<close> for one extracted line (lines 61 to 89); \<open>textBuffer\<close>
  already holds what follows the line.
\<close>

definition loopBody :: "'n platform \<Rightarrow> jstring \<Rightarrow> chat_state \<Rightarrow> flow \<times> chat_state" where
  "loopBody P line0 st =
     (let line = (if endsWith [CR] line0 then butlast line0 else line0) in
      if startsWith (asc '':'') line \<or> trim line = [] then (Continue, st)
      else if \<not> startsWith (asc ''data: '') line then (Continue, st)
      else
        (let jsonStr = trim (drop 6 line) in
         if jsonStr = asc ''[DONE]'' then (Break, st\<lparr>streamDone := True\<rparr>)
         else
           (case tryBlock P jsonStr st of
              Inr st' \<Rightarrow> (Continue, st')
            | Inl e \<Rightarrow> (Break, st\<lparr>textBuffer := line @ [NL] @ textBuffer st\<rparr>))))"

text \<open>The inner \<open>while\<close> (lines 57 to 90).\<close>

function drain :: "'n platform \<Rightarrow> chat_state \<Rightarrow> chat_state" where
  "drain P st =
     (case indexOf NL (textBuffer st) of
        None \<Rightarrow> st
      | Some newlineIndex \<Rightarrow>
          (let line = take newlineIndex (textBuffer st);
               st1 = st\<lparr>textBuffer := drop (newlineIndex + 1) (textBuffer st)\<rparr>
           in (case loopBody P line st1 of
                 (Break, st2) \<Rightarrow> st2
               | (Continue, st2) \<Rightarrow> drain P st2)))"
  by pat_completeness auto
termination
proof (relation "measure (\<lambda>(P, st). length (textBuffer st))")
  show "wf (measure (\<lambda>(P, st). length (textBuffer st)))"
    by simp
next
  fix P :: "'n platform" and st :: chat_state and i line st1 fl st2
  assume i: "indexOf NL (textBuffer st) = Some i"
    and line: "line = take i (textBuffer st)"
    and st1: "st1 = st\<lparr>textBuffer := drop (i + 1) (textBuffer st)\<rparr>"
    and body: "(fl, st2) = loopBody P line st1"
    and fl: "fl = Continue"
  have some: "indexOf c xs = Some k \<Longrightarrow> k < length xs" for c :: nat and xs k
    by (induction xs arbitrary: k) (auto split: if_splits)
  have "textBuffer st2 = textBuffer st1"
    using body fl
    by (auto simp: loopBody_def tryBlock_def Let_def
        split: if_splits sum.splits option.splits)
  moreover have "length (textBuffer st1) < length (textBuffer st)"
    using some [OF i] st1 by simp
  ultimately show "((P, st2), (P, st)) \<in> measure (\<lambda>(P, st). length (textBuffer st))"
    by simp
qed

text \<open>
  Lines 54 to 90 for one chunk: the decoded text is appended to \<open>textBuffer\<close> and
  the inner loop runs.
\<close>

definition onChunk :: "'n platform \<Rightarrow> bytes \<Rightarrow> decoder \<times> chat_state \<Rightarrow> decoder \<times> chat_state" where
  "onChunk P v ds =
     (case ds of
        (dec, st) \<Rightarrow>
          (case decode dec v of
             (dec', t) \<Rightarrow> (dec', drain P (st\<lparr>textBuffer := textBuffer st @ t\<rparr>))))"

text \<open>
  What \<open>reader.read()\<close> gives: a chunk, or a rejection; the end of the list is
  \<open>done\<close>. The outer \<open>while\<close> (lines 51 to 91) returns the error thrown, if any, the
  state, and what is left of the body unread.
\<close>

datatype read = Chunk bytes | ReadError

datatype error = FetchFailed | FailedToStartStream | ReadFailed

fun readLoop :: "'n platform \<Rightarrow> read list \<Rightarrow> decoder \<Rightarrow> chat_state \<Rightarrow> error option \<times> chat_state \<times> read list" where
  "readLoop P [] dec st = (None, st, [])"
| "readLoop P (r # rs) dec st =
     (if streamDone st then (None, st, r # rs)
      else
        (case r of
           ReadError \<Rightarrow> (Some ReadFailed, st, rs)
         | Chunk v \<Rightarrow>
             (case onChunk P v (dec, st) of (dec', st') \<Rightarrow> readLoop P rs dec' st')))"

text \<open>
  The outcome of \<open>fetch\<close>: it rejects, or resolves to a response with its \<open>ok\<close> flag
  and its body, if it has one.
\<close>

datatype fetched = Rejected | Response bool "read list option"

definition initial :: "message list \<Rightarrow> chat_state" where
  "initial msgs =
     \<lparr>textBuffer = [], streamDone = False, assistantContent = [], messages = msgs\<rparr>"

record outcome =
  thrown :: "error option"
  transcript :: "message list"
  unread :: "read list"

definition streamChat :: "'n platform \<Rightarrow> fetched \<Rightarrow> message list \<Rightarrow> outcome" where
  "streamChat P resp msgs =
     (case resp of
        Rejected \<Rightarrow> \<lparr>thrown = Some FetchFailed, transcript = msgs, unread = []\<rparr>
      | Response ok body \<Rightarrow>
          (case body of
             None \<Rightarrow> \<lparr>thrown = Some FailedToStartStream, transcript = msgs, unread = []\<rparr>
           | Some reads \<Rightarrow>
               if \<not> ok then
                 \<lparr>thrown = Some FailedToStartStream, transcript = msgs, unread = reads\<rparr>
               else
                 (case readLoop P reads newDecoder (initial msgs) of
                    (e, st, rest) \<Rightarrow>
                      \<lparr>thrown = e, transcript = messages st, unread = rest\<rparr>)))"

section \<open>\<open>handleSend\<close>\<close>

record component =
  shown :: "message list"
  input :: jstring
  isLoading :: bool

definition handleSend :: "'n platform \<Rightarrow> fetched \<Rightarrow> component \<Rightarrow> component" where
  "handleSend P resp ui =
     (if trim (input ui) = [] \<or> isLoading ui then ui
      else
        let userMessage = \<lparr>role = User, content = input ui\<rparr>;
            r = streamChat P resp (shown ui @ [userMessage])
        in \<lparr>shown = (case thrown r of
                       None \<Rightarrow> transcript r
                     | Some e \<Rightarrow>
                         transcript r @
                           [\<lparr>role = Assistant,
                             content = asc ''Sorry, I encountered an error. Please try again.''\<rparr>]),
            input = [],
            isLoading = False\<rparr>)"

section \<open>Auxiliary notions\<close>

text \<open>
  What the \<open>try\<close> block does with a payload, apart from the state: it throws, or
  it finds nothing to append, or it appends a text.
\<close>

definition delta :: "'n platform \<Rightarrow> jstring \<Rightarrow> js_error + jstring option" where
  "delta P jsonStr =
     (case JSON_parse P jsonStr of
        None \<Rightarrow> Inl SyntaxError
      | Some parsed \<Rightarrow>
          (case deltaContent parsed of
             Inl e \<Rightarrow> Inl e
           | Inr c \<Rightarrow>
               if truthy P c then
                 (case c of
                    None \<Rightarrow> Inr None
                  | Some v \<Rightarrow>
                      (case toString P v of None \<Rightarrow> Inl TypeError | Some t \<Rightarrow> Inr (Some t)))
               else Inr None))"

text \<open>Line 61: one trailing carriage return is removed.\<close>

definition stripCR :: "jstring \<Rightarrow> jstring" where
  "stripCR line0 = (if endsWith [CR] line0 then butlast line0 else line0)"

text \<open>The lines that reach the \<open>catch\<close>: a data line whose payload makes the \<open>try\<close> block throw.\<close>

definition rejected :: "'n platform \<Rightarrow> jstring \<Rightarrow> bool" where
  "rejected P line0 =
     (let line = stripCR line0 in
      \<not> startsWith (asc '':'') line \<and> trim line \<noteq> [] \<and> startsWith (asc ''data: '') line
      \<and> trim (drop 6 line) \<noteq> asc ''[DONE]'' \<and> isl (delta P (trim (drop 6 line))))"

text \<open>The lines whose payload is the sentinel.\<close>

definition isDoneLine :: "jstring \<Rightarrow> bool" where
  "isDoneLine line0 =
     (let line = stripCR line0 in
      \<not> startsWith (asc '':'') line \<and> trim line \<noteq> [] \<and> startsWith (asc ''data: '') line
      \<and> trim (drop 6 line) = asc ''[DONE]'')"

text \<open>A buffer whose first complete line reaches the \<open>catch\<close>.\<close>

definition jammed :: "'n platform \<Rightarrow> jstring \<Rightarrow> bool" where
  "jammed P b = (case indexOf NL b of None \<Rightarrow> False | Some i \<Rightarrow> rejected P (take i b))"

text \<open>The \<open>+=\<close> of line 54.\<close>

definition feed :: "jstring \<Rightarrow> chat_state \<Rightarrow> chat_state" where
  "feed v st = st\<lparr>textBuffer := textBuffer st @ v\<rparr>"

text \<open>
  A platform for the closed examples, which keeps a number as its lexeme; no example
  contains a number.
\<close>

definition lexemes :: "jstring platform" where
  "lexemes =
     \<lparr>numberOf = (\<lambda>l. l),
      numberTruthy = (\<lambda>l. list_ex (\<lambda>c. 49 \<le> c \<and> c \<le> 57) (takeWhile (\<lambda>c. c \<noteq> 101 \<and> c \<noteq> 69) l)),
      numberToString = (\<lambda>l. l)\<rparr>"

text \<open>What a state shows apart from its buffer.\<close>

definition view :: "chat_state \<Rightarrow> bool \<times> jstring \<times> message list" where
  "view st = (streamDone st, assistantContent st, messages st)"

text \<open>Two states that show the same and whose buffers are equal or both jammed.\<close>

definition alike :: "'n platform \<Rightarrow> chat_state \<Rightarrow> chat_state \<Rightarrow> bool" where
  "alike P st st' =
     (view st = view st'
      \<and> (textBuffer st = textBuffer st' \<or> (jammed P (textBuffer st) \<and> jammed P (textBuffer st'))))"

text \<open>
  The payload of a line that passes the tests of lines 61 to 63, as line 65 takes it.
\<close>

definition payload :: "jstring \<Rightarrow> jstring option" where
  "payload line0 =
     (let line = stripCR line0 in
      if startsWith (asc '':'') line \<or> trim line = [] then None
      else if \<not> startsWith (asc ''data: '') line then None
      else Some (trim (drop 6 line)))"

text \<open>The data lines whose payload \<open>JSON.parse\<close> does not accept.\<close>

definition unparsable :: "'n platform \<Rightarrow> jstring \<Rightarrow> bool" where
  "unparsable P line0 =
     (case payload line0 of
        None \<Rightarrow> False
      | Some j \<Rightarrow> j \<noteq> asc ''[DONE]'' \<and> JSON_parse P j = None)"

text \<open>
  The data lines whose payload \<open>JSON.parse\<close> accepts and which throw later in the
  \<open>try\<close> block.
\<close>

definition throwsParsed :: "'n platform \<Rightarrow> jstring \<Rightarrow> bool" where
  "throwsParsed P line0 =
     (case payload line0 of
        None \<Rightarrow> False
      | Some j \<Rightarrow> j \<noteq> asc ''[DONE]'' \<and> delta P j = Inl TypeError)"

text \<open>The complete lines of a text, each without its newline.\<close>

fun linesFrom :: "jstring \<Rightarrow> jstring \<Rightarrow> jstring list" where
  "linesFrom acc [] = []"
| "linesFrom acc (c # cs) =
     (if c = NL then rev acc # linesFrom [] cs else linesFrom (c # acc) cs)"

definition linesOf :: "jstring \<Rightarrow> jstring list" where
  "linesOf t = linesFrom [] t"

text \<open>A text none of whose lines throws after its payload has been parsed.\<close>

definition noThrowParsed :: "'n platform \<Rightarrow> jstring \<Rightarrow> bool" where
  "noThrowParsed P t = list_all (\<lambda>l. \<not> throwsParsed P l) (linesOf t)"

text \<open>A buffer whose first complete line is a data line with an unparsable payload.\<close>

definition requeuedFirst :: "'n platform \<Rightarrow> jstring \<Rightarrow> bool" where
  "requeuedFirst P b =
     (case indexOf NL b of None \<Rightarrow> False | Some i \<Rightarrow> unparsable P (take i b))"

text \<open>The three shapes of the buffer between reads.\<close>

definition atRest :: "'n platform \<Rightarrow> chat_state \<Rightarrow> bool" where
  "atRest P st =
     (NL \<notin> set (textBuffer st) \<or> streamDone st \<or> requeuedFirst P (textBuffer st))"

text \<open>The text of a whole stream of bytes.\<close>

definition decoded :: "bytes \<Rightarrow> jstring" where
  "decoded bs = snd (decode newDecoder bs)"

text \<open>
  The state at the suspension point after the chunks \<open>cs\<close> have been read, or the
  state the loop has ended in before that.
\<close>

definition reached :: "'n platform \<Rightarrow> bytes list \<Rightarrow> message list \<Rightarrow> chat_state" where
  "reached P cs msgs = fst (snd (readLoop P (map Chunk cs) newDecoder (initial msgs)))"

text \<open>
  The three lines of the scenario, a line split before its end, a line with an
  unparsable payload, a line with the payload \<open>null\<close>, and a line whose content is
  one character of two bytes (U+00E9), split between the two.
\<close>

definition helLine :: bytes where
  \<open>helLine = ''data: {"choices":[{"delta":{"content":"Hel"}}]}'' @ [CHR 0x0A]\<close>

definition loLine :: bytes where
  \<open>loLine = ''data: {"choices":[{"delta":{"content":"lo"}}]}'' @ [CHR 0x0A]\<close>

definition doneLine :: bytes where
  \<open>doneLine = ''data: [DONE]'' @ [CHR 0x0A]\<close>

definition helHead :: bytes where
  \<open>helHead = ''data: {"choices":[{"delta":{"con''\<close>

definition helTail :: bytes where
  \<open>helTail = ''tent":"Hel"}}]}'' @ [CHR 0x0A]\<close>

definition braceLine :: bytes where
  \<open>braceLine = ''data: {'' @ [CHR 0x0A]\<close>

definition nullLine :: bytes where
  \<open>nullLine = ''data: null'' @ [CHR 0x0A]\<close>

definition accentHead :: bytes where
  \<open>accentHead = ''data: {"choices":[{"delta":{"content":"'' @ [CHR 0xC3]\<close>

definition accentTail :: bytes where
  \<open>accentTail = [CHR 0xA9] @ ''"}}]}'' @ [CHR 0x0A]\<close>

section \<open>Lemmas on the text operations and the loop body\<close>

declare drain.simps [simp del]

lemma indexOf_None_iff: "indexOf c xs = None \<longleftrightarrow> c \<notin> set xs"
  by (induction xs) auto

lemma indexOf_Some_less: "indexOf c xs = Some i \<Longrightarrow> i < length xs"
  by (induction xs arbitrary: i) (auto split: if_splits)

lemma indexOf_Some_take: "indexOf c xs = Some i \<Longrightarrow> c \<notin> set (take i xs) \<and> xs ! i = c"
  by (induction xs arbitrary: i) (auto split: if_splits)

lemma indexOf_line: "c \<notin> set l \<Longrightarrow> indexOf c (l @ c # r) = Some (length l)"
  by (induction l) auto

lemma indexOf_split:
  assumes "indexOf c xs = Some i"
  shows "xs = take i xs @ c # drop (Suc i) xs"
  using indexOf_Some_less [OF assms] indexOf_Some_take [OF assms]
  by (metis id_take_nth_drop)

lemma indexOf_append: "indexOf c xs = Some i \<Longrightarrow> indexOf c (xs @ ys) = Some i"
  by (induction xs arbitrary: i) (auto split: if_splits)

lemma tryBlock_delta:
  "tryBlock P j st =
     (case delta P j of
        Inl e \<Rightarrow> Inl e
      | Inr None \<Rightarrow> Inr st
      | Inr (Some t) \<Rightarrow>
          Inr (st\<lparr>assistantContent := assistantContent st @ t,
                 messages := updater (assistantContent st @ t) (messages st)\<rparr>))"
  by (simp add: tryBlock_def delta_def Let_def split: option.splits sum.splits)

lemma loopBody_stripCR:
  "loopBody P line0 st =
     (let line = stripCR line0 in
      if startsWith (asc '':'') line \<or> trim line = [] then (Continue, st)
      else if \<not> startsWith (asc ''data: '') line then (Continue, st)
      else if trim (drop 6 line) = asc ''[DONE]'' then (Break, st\<lparr>streamDone := True\<rparr>)
      else
        (case delta P (trim (drop 6 line)) of
           Inl e \<Rightarrow> (Break, st\<lparr>textBuffer := line @ [NL] @ textBuffer st\<rparr>)
         | Inr None \<Rightarrow> (Continue, st)
         | Inr (Some t) \<Rightarrow>
             (Continue, st\<lparr>assistantContent := assistantContent st @ t,
                 messages := updater (assistantContent st @ t) (messages st)\<rparr>)))"
  by (simp add: loopBody_def stripCR_def Let_def tryBlock_delta split: option.splits sum.splits)

lemma loopBody_rejected:
  "rejected P l \<Longrightarrow> loopBody P l st = (Break, st\<lparr>textBuffer := stripCR l @ [NL] @ textBuffer st\<rparr>)"
  by (auto simp: loopBody_stripCR rejected_def Let_def isl_def split: sum.splits)

lemma loopBody_done:
  "isDoneLine l \<Longrightarrow> loopBody P l st = (Break, st\<lparr>streamDone := True\<rparr>)"
  by (auto simp: loopBody_stripCR isDoneLine_def Let_def)

lemma loopBody_Break:
  "loopBody P l st = (Break, st') \<Longrightarrow>
     (isDoneLine l \<and> st' = st\<lparr>streamDone := True\<rparr>)
     \<or> (rejected P l \<and> st' = st\<lparr>textBuffer := stripCR l @ [NL] @ textBuffer st\<rparr>)"
  by (auto simp: loopBody_stripCR isDoneLine_def rejected_def Let_def split: if_splits sum.splits option.splits)

lemma loopBody_Continue:
  "loopBody P l st = (Continue, st') \<Longrightarrow>
     textBuffer st' = textBuffer st \<and> streamDone st' = streamDone st"
  by (auto simp: loopBody_stripCR Let_def split: if_splits sum.splits option.splits)

lemma loopBody_feed:
  "loopBody P l (feed v st) = (case loopBody P l st of (fl, st') \<Rightarrow> (fl, feed v st'))"
  by (auto simp: loopBody_stripCR feed_def Let_def split: if_splits sum.splits option.splits)

lemma drain_no_newline: "NL \<notin> set (textBuffer st) \<Longrightarrow> drain P st = st"
  by (subst drain.simps) (simp add: indexOf_None_iff [symmetric])

lemma drain_line:
  assumes "NL \<notin> set l" and "textBuffer st = l @ NL # rest"
  shows "drain P st =
     (case loopBody P l (st\<lparr>textBuffer := rest\<rparr>) of
        (Break, s) \<Rightarrow> s
      | (Continue, s) \<Rightarrow> drain P s)"
  using assms by (subst drain.simps) (simp add: indexOf_line Let_def)

lemma trim_snoc_space: "isWhiteSpace w \<Longrightarrow> trim (xs @ [w]) = trim xs"
proof (cases "\<forall>x\<in>set xs. isWhiteSpace x")
  case True
  assume w: "isWhiteSpace w"
  from True have a: "dropWhile isWhiteSpace xs = []" by simp
  from True w have b: "dropWhile isWhiteSpace (xs @ [w]) = []" by simp
  show ?thesis unfolding trim_def a b ..
next
  case False
  assume w: "isWhiteSpace w"
  from False have "dropWhile isWhiteSpace (xs @ [w]) = dropWhile isWhiteSpace xs @ [w]"
    by (auto simp: dropWhile_append1)
  with w show ?thesis by (simp add: trim_def)
qed

lemma stripCR_subset: "set (stripCR l) \<subseteq> set l"
  by (auto simp: stripCR_def dest: in_set_butlastD)

lemma isWhiteSpace_CR: "isWhiteSpace CR"
  by (simp add: isWhiteSpace_def CR_def)

lemma endsWith_CR: "endsWith [CR] l \<longleftrightarrow> l \<noteq> [] \<and> last l = CR"
proof (cases l rule: rev_cases)
  case Nil
  then show ?thesis by (simp add: endsWith_def)
next
  case (snoc ys y)
  then show ?thesis by (auto simp: endsWith_def)
qed

lemma data_prefix_head:
  assumes "startsWith (asc ''data: '') m"
  shows "\<exists>t. m = asc ''data: '' @ t"
proof -
  have len: "length (asc ''data: '') = 6" by (simp add: asc_def)
  have "m = take 6 m @ drop 6 m" by simp
  moreover have "take 6 m = asc ''data: ''"
    using assms unfolding startsWith_def len .
  ultimately show ?thesis by metis
qed

lemma rejected_stripCR:
  assumes "rejected P l"
  shows "rejected P (stripCR l)"
proof -
  define m where "m = stripCR l"
  from assms have m: "\<not> startsWith (asc '':'') m" "trim m \<noteq> []" "startsWith (asc ''data: '') m"
    "trim (drop 6 m) \<noteq> asc ''[DONE]''" "isl (delta P (trim (drop 6 m)))"
    by (simp_all add: rejected_def m_def Let_def)
  show ?thesis
  proof (cases "endsWith [CR] m")
    case False
    then have "stripCR m = m" by (simp add: stripCR_def)
    with m show ?thesis by (simp add: rejected_def Let_def m_def)
  next
    case True
    from data_prefix_head [OF m(3)] obtain t where t: "m = asc ''data: '' @ t" by blast
    from True have last: "last m = CR" by (simp add: endsWith_CR)
    have "t \<noteq> []"
    proof
      assume "t = []"
      with t last show False by (simp add: asc_def ch_def CR_def)
    qed
    moreover from this t last have lt: "last t = CR" by simp
    ultimately have "t \<noteq> []" and "last t = CR" by simp_all
    then obtain u where u: "t = u @ [CR]"
      by (metis append_butlast_last_id)
    have s: "stripCR m = asc ''data: '' @ u"
      using True t u by (simp add: stripCR_def butlast_append)
    have d: "drop 6 m = drop 6 (stripCR m) @ [CR]"
      using t u s by (simp add: asc_def)
    have "trim (drop 6 (stripCR m)) = trim (drop 6 m)"
      unfolding d by (rule trim_snoc_space [OF isWhiteSpace_CR, symmetric])
    moreover have "startsWith (asc ''data: '') (stripCR m)"
      unfolding s by (simp add: startsWith_def asc_def)
    moreover have "\<not> startsWith (asc '':'') (stripCR m)"
      unfolding s by (simp add: startsWith_def asc_def ch_def)
    moreover have "trim (stripCR m) \<noteq> []"
      unfolding s by (simp add: trim_def asc_def ch_def isWhiteSpace_def)
    ultimately show ?thesis
      using m by (simp add: rejected_def Let_def m_def)
  qed
qed

lemma jammed_line:
  "NL \<notin> set l \<Longrightarrow> jammed P (l @ NL # rest) = rejected P l"
  by (simp add: jammed_def indexOf_line)

lemma jammed_split:
  assumes "jammed P b"
  obtains l rest where "b = l @ NL # rest" and "NL \<notin> set l" and "rejected P l"
proof -
  from assms obtain i where i: "indexOf NL b = Some i" and r: "rejected P (take i b)"
    by (auto simp: jammed_def split: option.splits)
  from indexOf_split [OF i] indexOf_Some_take [OF i] r that show thesis
    by blast
qed

lemma jammed_append: "jammed P b \<Longrightarrow> jammed P (b @ c)"
  by (erule jammed_split) (simp add: jammed_line)

lemma drain_jammed:
  assumes "jammed P (textBuffer st)"
  shows "\<exists>b. drain P st = st\<lparr>textBuffer := b\<rparr> \<and> jammed P b"
proof -
  from assms obtain l rest where b: "textBuffer st = l @ NL # rest" and l: "NL \<notin> set l"
    and r: "rejected P l"
    by (rule jammed_split)
  have "drain P st = st\<lparr>textBuffer := stripCR l @ NL # rest\<rparr>"
    by (simp add: drain_line [OF l b] loopBody_rejected [OF r])
  moreover have "NL \<notin> set (stripCR l)"
    using l stripCR_subset by blast
  then have "jammed P (stripCR l @ NL # rest)"
    by (simp add: jammed_line rejected_stripCR [OF r])
  ultimately show ?thesis by blast
qed

lemma view_feed: "view (feed c st) = view st"
  by (simp add: view_def feed_def)

lemma chat_state_eqI: "view st = view st' \<Longrightarrow> textBuffer st = textBuffer st' \<Longrightarrow> st = st'"
  for st st' :: chat_state
  by (simp add: view_def)

lemma alike_refl: "alike P st st"
  by (simp add: alike_def)

lemma alike_sym: "alike P a b \<Longrightarrow> alike P b a"
  by (auto simp: alike_def)

lemma alike_trans: "alike P a b \<Longrightarrow> alike P b c \<Longrightarrow> alike P a c"
  by (auto simp: alike_def)

lemma alike_view: "alike P a b \<Longrightarrow> view a = view b"
  by (simp add: alike_def)

lemma textBuffer_feed: "textBuffer (feed c st) = textBuffer st @ c"
  by (simp add: feed_def)

lemma alike_feed: "alike P a b \<Longrightarrow> alike P (feed c a) (feed c b)"
  by (auto simp: alike_def view_feed textBuffer_feed jammed_append)

lemma alike_jammed:
  "jammed P (textBuffer a) \<Longrightarrow> jammed P b \<Longrightarrow> alike P a (a\<lparr>textBuffer := b\<rparr>)"
  by (simp add: alike_def view_def)

lemma alike_drain:
  assumes "alike P a b"
  shows "alike P (drain P a) (drain P b)"
proof (cases "textBuffer a = textBuffer b")
  case True
  with assms have "a = b" by (simp add: alike_def chat_state_eqI)
  then show ?thesis by (simp add: alike_refl)
next
  case False
  with assms have ja: "jammed P (textBuffer a)" and jb: "jammed P (textBuffer b)"
    and v: "view a = view b"
    by (simp_all add: alike_def)
  from drain_jammed [OF ja] obtain x where x: "drain P a = a\<lparr>textBuffer := x\<rparr>" "jammed P x"
    by blast
  from drain_jammed [OF jb] obtain y where y: "drain P b = b\<lparr>textBuffer := y\<rparr>" "jammed P y"
    by blast
  from x y v show ?thesis by (simp add: alike_def view_def)
qed

lemma drain_feed:
  "\<not> streamDone st \<Longrightarrow>
   alike P (drain P (feed c st))
     (if streamDone (drain P st) then feed c (drain P st) else drain P (feed c (drain P st)))"
proof (induction P st rule: drain.induct)
  case (1 P st)
  show ?case
  proof (cases "indexOf NL (textBuffer st)")
    case None
    then have "drain P st = st"
      by (simp add: drain_no_newline indexOf_None_iff)
    with "1.prems" show ?thesis by (simp add: alike_refl)
  next
    case (Some i)
    define l where "l = take i (textBuffer st)"
    define st1 where "st1 = st\<lparr>textBuffer := drop (i + 1) (textBuffer st)\<rparr>"
    obtain fl st2 where body: "loopBody P l st1 = (fl, st2)"
      by (cases "loopBody P l st1")
    have nl: "NL \<notin> set l"
      using indexOf_Some_take [OF Some] by (simp add: l_def)
    have b: "textBuffer st = l @ NL # textBuffer st1"
      using indexOf_split [OF Some] by (simp add: l_def st1_def)
    have d: "drain P st = (case fl of Break \<Rightarrow> st2 | Continue \<Rightarrow> drain P st2)"
      using drain_line [OF nl b, of P] body by (simp add: st1_def)
    have bf: "textBuffer (feed c st) = l @ NL # textBuffer (feed c st1)"
      using b by (simp add: feed_def)
    have "(feed c st)\<lparr>textBuffer := textBuffer (feed c st1)\<rparr> = feed c st1"
      by (simp add: feed_def st1_def)
    then have df: "drain P (feed c st) = (case fl of Break \<Rightarrow> feed c st2 | Continue \<Rightarrow> drain P (feed c st2))"
      using drain_line [OF nl bf, of P] body by (simp add: loopBody_feed)
    show ?thesis
    proof (cases fl)
      case Continue
      from loopBody_Continue [OF body [unfolded Continue]] "1.prems"
      have "\<not> streamDone st2" by (simp add: st1_def)
      from "1.IH" [OF Some l_def st1_def body [symmetric] Continue this] d df Continue
      show ?thesis by (simp split: if_splits)
    next
      case Break
      from loopBody_Break [OF body [unfolded Break]] show ?thesis
      proof
        assume "isDoneLine l \<and> st2 = st1\<lparr>streamDone := True\<rparr>"
        with d df Break show ?thesis by (simp add: alike_refl)
      next
        assume r: "rejected P l \<and> st2 = st1\<lparr>textBuffer := stripCR l @ [NL] @ textBuffer st1\<rparr>"
        have "NL \<notin> set (stripCR l)"
          using nl stripCR_subset by blast
        then have "jammed P (stripCR l @ NL # textBuffer st1)"
          using r by (simp add: jammed_line rejected_stripCR)
        from jammed_append [OF this, of c] have j: "jammed P (textBuffer (feed c st2))"
          using r by (simp add: feed_def)
        from drain_jammed [OF j] obtain x
          where x: "drain P (feed c st2) = (feed c st2)\<lparr>textBuffer := x\<rparr>" "jammed P x"
          by blast
        have "\<not> streamDone st2"
          using r "1.prems" by (simp add: st1_def)
        with d df Break x alike_jammed [OF j x(2)] show ?thesis by simp
      qed
    qed
  qed
qed

lemma decode_append:
  "decode d (a @ b) =
     (case decode d a of (d1, o1) \<Rightarrow> (case decode d1 b of (d2, o2) \<Rightarrow> (d2, o1 @ o2)))"
  by (induction a arbitrary: d) (simp_all split: prod.splits)

lemma onChunk_feed:
  "onChunk P v (dec, st) = (fst (decode dec v), drain P (feed (snd (decode dec v)) st))"
  by (simp add: onChunk_def feed_def split: prod.splits)

lemma readLoop_alike:
  "alike P a b \<Longrightarrow>
   fst (readLoop P rs dec a) = fst (readLoop P rs dec b)
   \<and> alike P (fst (snd (readLoop P rs dec a))) (fst (snd (readLoop P rs dec b)))
   \<and> snd (snd (readLoop P rs dec a)) = snd (snd (readLoop P rs dec b))"
proof (induction rs arbitrary: a b dec)
  case Nil
  then show ?case by simp
next
  case (Cons r rs)
  from Cons.prems have s: "streamDone a = streamDone b"
    by (simp add: alike_def view_def)
  show ?case
  proof (cases r)
    case ReadError
    with Cons.prems s show ?thesis by simp
  next
    case (Chunk v)
    have "alike P (drain P (feed (snd (decode dec v)) a)) (drain P (feed (snd (decode dec v)) b))"
      using Cons.prems by (simp add: alike_drain alike_feed)
    from Cons.IH [OF this] Cons.prems s Chunk show ?thesis
      by (simp add: onChunk_feed)
  qed
qed

lemma readLoop_done: "streamDone st \<Longrightarrow> readLoop P rs dec st = (None, st, rs)"
  by (cases rs) simp_all

lemma readLoop_chunks:
  "\<not> streamDone st \<Longrightarrow>
   view (fst (snd (readLoop P (map Chunk cs) dec (drain P st))))
     = view (drain P (feed (snd (decode dec (concat cs))) st))"
proof (induction cs arbitrary: st dec)
  case Nil
  have "feed [] st = st" by (simp add: feed_def)
  then show ?case by simp
next
  case (Cons c cs)
  obtain d1 t where c: "decode dec c = (d1, t)"
    by (cases "decode dec c")
  obtain d2 u where u: "decode d1 (concat cs) = (d2, u)"
    by (cases "decode d1 (concat cs)")
  have all: "snd (decode dec (concat (c # cs))) = t @ u"
    by (simp add: decode_append c u)
  have ff: "feed u (feed t st) = feed (t @ u) st"
    by (simp add: feed_def)
  show ?case
  proof (cases "streamDone (drain P st)")
    case True
    from drain_feed [OF Cons.prems, of P "t @ u"] True
    have "alike P (drain P (feed (t @ u) st)) (feed (t @ u) (drain P st))"
      by simp
    then have v: "view (drain P (feed (t @ u) st)) = view (drain P st)"
      by (simp add: alike_def view_feed)
    have r: "fst (snd (readLoop P (map Chunk (c # cs)) dec (drain P st))) = drain P st"
      by (simp only: readLoop_done [OF True] fst_conv snd_conv)
    show ?thesis unfolding r all using v by simp
  next
    case False
    from drain_feed [OF Cons.prems, of P t] False
    have 1: "alike P (drain P (feed t (drain P st))) (drain P (feed t st))"
      by (simp add: alike_sym)
    have nd: "\<not> streamDone (feed t st)"
      using Cons.prems by (simp add: feed_def)
    have 2: "view (fst (snd (readLoop P (map Chunk cs) d1 (drain P (feed t st)))))
        = view (drain P (feed (t @ u) st))"
      using Cons.IH [OF nd, of d1] by (simp add: u ff)
    have 3: "view (fst (snd (readLoop P (map Chunk cs) d1 (drain P (feed t (drain P st))))))
        = view (fst (snd (readLoop P (map Chunk cs) d1 (drain P (feed t st)))))"
      using readLoop_alike [OF 1, of "map Chunk cs" d1] by (blast intro: alike_view)
    have r: "readLoop P (map Chunk (c # cs)) dec (drain P st)
        = readLoop P (map Chunk cs) d1 (drain P (feed t (drain P st)))"
      using False by (simp add: onChunk_feed c)
    show ?thesis unfolding r all using 2 3 by simp
  qed
qed

lemma drain_initial: "drain P (initial msgs) = initial msgs"
  by (simp add: drain_no_newline initial_def)

lemma reached_view:
  "view (reached P cs msgs) = view (drain P (feed (decoded (concat cs)) (initial msgs)))"
proof -
  have "\<not> streamDone (initial msgs)" by (simp add: initial_def)
  from readLoop_chunks [OF this, of P cs newDecoder] show ?thesis
    by (simp add: reached_def drain_initial decoded_def)
qed

lemma readLoop_chunks_none: "fst (readLoop P (map Chunk cs) dec st) = None"
  by (induction cs arbitrary: st dec) (simp_all split: prod.splits)

lemma streamChat_chunks:
  "streamChat P (Response True (Some (map Chunk cs))) msgs =
     \<lparr>thrown = None, transcript = messages (reached P cs msgs),
      unread = snd (snd (readLoop P (map Chunk cs) newDecoder (initial msgs)))\<rparr>"
proof -
  obtain e st' rest where r: "readLoop P (map Chunk cs) newDecoder (initial msgs) = (e, st', rest)"
    by (cases "readLoop P (map Chunk cs) newDecoder (initial msgs)")
  with readLoop_chunks_none [of P cs newDecoder "initial msgs"] have "e = None"
    by simp
  with r show ?thesis
    by (simp add: streamChat_def reached_def)
qed



lemma startsWith_colon: "startsWith (asc '':'') l \<longleftrightarrow> (\<exists>t. l = ch CHR '':'' # t)"
  by (cases l) (simp_all add: startsWith_def asc_def)

lemma stripCR_colon:
  assumes "startsWith (asc '':'') l"
  shows "startsWith (asc '':'') (stripCR l)"
proof -
  from assms obtain t where l: "l = ch CHR '':'' # t"
    by (auto simp: startsWith_colon)
  show ?thesis
  proof (cases "t = []")
    case True
    with l show ?thesis
      by (simp add: stripCR_def endsWith_def startsWith_colon ch_def CR_def)
  next
    case False
    with l show ?thesis
      by (simp add: stripCR_def endsWith_CR startsWith_colon)
  qed
qed

lemma trim_empty_iff: "trim l = [] \<longleftrightarrow> (\<forall>c\<in>set l. isWhiteSpace c)"
proof
  assume "trim l = []"
  then have all: "\<forall>x\<in>set (dropWhile isWhiteSpace l). isWhiteSpace x"
    by (simp add: trim_def)
  have "dropWhile isWhiteSpace l = []"
  proof (rule ccontr)
    assume ne: "dropWhile isWhiteSpace l \<noteq> []"
    then have "\<not> isWhiteSpace (hd (dropWhile isWhiteSpace l))"
      by (rule hd_dropWhile)
    with all ne show False by simp
  qed
  then show "\<forall>c\<in>set l. isWhiteSpace c" by simp
next
  assume "\<forall>c\<in>set l. isWhiteSpace c"
  then have e: "dropWhile isWhiteSpace l = []" by simp
  show "trim l = []" unfolding trim_def e by simp
qed

lemma stripCR_blank: "trim l = [] \<Longrightarrow> trim (stripCR l) = []"
  using stripCR_subset [of l] by (auto simp: trim_empty_iff)

lemma JSON_parse_null: "JSON_parse P (asc ''null'') = Some JNull"
  by (simp add: JSON_parse_def asc_def ch_def startsWith_def isJsonSpace_def DQUOTE_def isDigit_def)

lemma delta_null: "delta P (asc ''null'') = Inl TypeError"
  by (simp add: delta_def JSON_parse_null deltaContent_def)

lemma delta_hel: \<open>delta P (asc ''{"choices":[{"delta":{"content":"Hel"}}]}'') = Inr (Some (asc ''Hel''))\<close>
  by code_simp

lemma delta_lo: \<open>delta P (asc ''{"choices":[{"delta":{"content":"lo"}}]}'') = Inr (Some (asc ''lo''))\<close>
  by code_simp

lemma delta_head: \<open>isl (delta P (asc ''{"choices":[{"delta":{"con''))\<close>
  by code_simp

lemma updater_replace:
  assumes "prev \<noteq> []"
  shows "map (\<lambda>(m, i). if i = length prev - 1 then f m else m) (zip prev [0..<length prev])
     = butlast prev @ [f (last prev)]"
proof (rule nth_equalityI)
  show "length (map (\<lambda>(m, i). if i = length prev - 1 then f m else m) (zip prev [0..<length prev]))
      = length (butlast prev @ [f (last prev)])"
    using assms by simp
next
  fix i
  assume "i < length (map (\<lambda>(m, i). if i = length prev - 1 then f m else m) (zip prev [0..<length prev]))"
  then have i: "i < length prev" by simp
  show "map (\<lambda>(m, i). if i = length prev - 1 then f m else m) (zip prev [0..<length prev]) ! i
      = (butlast prev @ [f (last prev)]) ! i"
  proof (cases "i = length prev - 1")
    case True
    with i assms show ?thesis
      by (simp add: nth_append last_conv_nth)
  next
    case False
    with i have "i < length prev - 1" by simp
    with i False show ?thesis
      by (simp add: nth_append nth_butlast)
  qed
qed

lemma updater_eq:
  "updater ac prev =
     (if prev \<noteq> [] \<and> role (last prev) = Assistant \<and> 1 < length prev
      then butlast prev @ [(last prev)\<lparr>content := ac\<rparr>]
      else prev @ [\<lparr>role = Assistant, content = ac\<rparr>])"
proof (cases "prev \<noteq> [] \<and> role (last prev) = Assistant \<and> 1 < length prev")
  case True
  then have "prev \<noteq> []" by simp
  from updater_replace [OF this] True show ?thesis
    by (simp only: updater_def if_True)
next
  case False
  then show ?thesis
    by (simp only: updater_def if_False)
qed

lemma drain_feed_prefix:
  assumes "\<not> streamDone st" and "textBuffer (drain P (feed pre st)) = []"
    and "\<not> streamDone (drain P (feed pre st))"
  shows "view (drain P (feed (pre @ x) st)) = view (drain P (feed x (drain P (feed pre st))))"
proof -
  have nd: "\<not> streamDone (feed pre st)"
    using assms(1) by (simp add: feed_def)
  have "feed x (feed pre st) = feed (pre @ x) st"
    by (simp add: feed_def)
  with drain_feed [OF nd, of P x] assms(3) show ?thesis
    by (simp add: alike_def)
qed

lemma drain_done_line:
  assumes "isDoneLine l" and "NL \<notin> set l"
  shows "drain P (st\<lparr>textBuffer := l @ NL # rest\<rparr>) = st\<lparr>textBuffer := rest, streamDone := True\<rparr>"
  using drain_line [OF assms(2), of "st\<lparr>textBuffer := l @ NL # rest\<rparr>" rest P]
  by (simp add: loopBody_done [OF assms(1)])

lemma length_data_prefix: "length (asc ''data: '') = 6"
  by (simp add: asc_def)

lemma loopBody_data:
  assumes "stripCR (asc ''data: '' @ j) = asc ''data: '' @ j" and "trim j = j"
    and "j \<noteq> asc ''[DONE]''"
  shows "loopBody P (asc ''data: '' @ j) st =
     (case delta P j of
        Inl e \<Rightarrow> (Break, st\<lparr>textBuffer := asc ''data: '' @ j @ [NL] @ textBuffer st\<rparr>)
      | Inr None \<Rightarrow> (Continue, st)
      | Inr (Some t) \<Rightarrow>
          (Continue, st\<lparr>assistantContent := assistantContent st @ t,
             messages := updater (assistantContent st @ t) (messages st)\<rparr>))"
proof -
  have "\<not> startsWith (asc '':'') (asc ''data: '' @ j)"
    by (simp add: startsWith_def asc_def ch_def)
  moreover have "trim (asc ''data: '' @ j) \<noteq> []"
    by (simp add: trim_def asc_def ch_def isWhiteSpace_def)
  moreover have "startsWith (asc ''data: '') (asc ''data: '' @ j)"
    by (simp add: startsWith_def)
  ultimately show ?thesis
    using assms by (simp add: loopBody_stripCR length_data_prefix split: sum.splits option.splits)
qed

lemma drain_data_line:
  assumes "stripCR (asc ''data: '' @ j) = asc ''data: '' @ j" and "trim j = j"
    and "j \<noteq> asc ''[DONE]''" and "NL \<notin> set j" and "delta P j = Inr (Some t)"
  shows "drain P \<lparr>textBuffer = asc ''data: '' @ j @ NL # rest, streamDone = d,
       assistantContent = a, messages = m\<rparr> =
     drain P \<lparr>textBuffer = rest, streamDone = d, assistantContent = a @ t,
       messages = updater (a @ t) m\<rparr>"
proof -
  have nl: "NL \<notin> set (asc ''data: '' @ j)"
    using assms(4) by (simp add: asc_def ch_def NL_def)
  have "textBuffer \<lparr>textBuffer = asc ''data: '' @ j @ NL # rest, streamDone = d,
       assistantContent = a, messages = m\<rparr> = (asc ''data: '' @ j) @ NL # rest"
    by simp
  from drain_line [OF nl this, of P] show ?thesis
    by (simp add: loopBody_data [OF assms(1-3)] assms(5))
qed

lemma drain_sentinel_line:
  assumes "isDoneLine l" and "NL \<notin> set l"
  shows "drain P \<lparr>textBuffer = l @ NL # rest, streamDone = d, assistantContent = a, messages = m\<rparr>
     = \<lparr>textBuffer = rest, streamDone = True, assistantContent = a, messages = m\<rparr>"
  using drain_done_line [OF assms, where P = P and rest = rest
      and st = "\<lparr>textBuffer = [], streamDone = d, assistantContent = a, messages = m\<rparr>"]
  by simp

lemma hel_payload:
  \<open>stripCR (asc ''data: '' @ asc ''{"choices":[{"delta":{"content":"Hel"}}]}'')
     = asc ''data: '' @ asc ''{"choices":[{"delta":{"content":"Hel"}}]}''\<close>
  \<open>trim (asc ''{"choices":[{"delta":{"content":"Hel"}}]}'') = asc ''{"choices":[{"delta":{"content":"Hel"}}]}''\<close>
  \<open>asc ''{"choices":[{"delta":{"content":"Hel"}}]}'' \<noteq> asc ''[DONE]''\<close>
  \<open>NL \<notin> set (asc ''{"choices":[{"delta":{"content":"Hel"}}]}'')\<close>
  by code_simp+

lemma lo_payload:
  \<open>stripCR (asc ''data: '' @ asc ''{"choices":[{"delta":{"content":"lo"}}]}'')
     = asc ''data: '' @ asc ''{"choices":[{"delta":{"content":"lo"}}]}''\<close>
  \<open>trim (asc ''{"choices":[{"delta":{"content":"lo"}}]}'') = asc ''{"choices":[{"delta":{"content":"lo"}}]}''\<close>
  \<open>asc ''{"choices":[{"delta":{"content":"lo"}}]}'' \<noteq> asc ''[DONE]''\<close>
  \<open>NL \<notin> set (asc ''{"choices":[{"delta":{"content":"lo"}}]}'')\<close>
  by code_simp+

lemma done_payload: "isDoneLine (asc ''data: [DONE]'')" "NL \<notin> set (asc ''data: [DONE]'')"
  by code_simp+

lemma scenario_text:
  \<open>decoded (helLine @ loLine @ doneLine) =
     asc ''data: '' @ asc ''{"choices":[{"delta":{"content":"Hel"}}]}'' @ NL #
     asc ''data: '' @ asc ''{"choices":[{"delta":{"content":"lo"}}]}'' @ NL #
     asc ''data: [DONE]'' @ NL # []\<close>
  by code_simp

lemma drain_scenario:
  "drain P (feed (decoded (helLine @ loLine @ doneLine)) (initial msgs)) =
     \<lparr>textBuffer = [], streamDone = True, assistantContent = asc ''Hello'',
      messages = updater (asc ''Hello'') (updater (asc ''Hel'') msgs)\<rparr>"
proof -
  have h: "asc ''Hel'' @ asc ''lo'' = asc ''Hello''"
    by (simp add: asc_def)
  have "feed (decoded (helLine @ loLine @ doneLine)) (initial msgs) =
      \<lparr>textBuffer = decoded (helLine @ loLine @ doneLine), streamDone = False,
       assistantContent = [], messages = msgs\<rparr>"
    by (simp add: feed_def initial_def)
  then show ?thesis
    by (simp only: scenario_text drain_data_line [OF hel_payload delta_hel]
        drain_data_line [OF lo_payload delta_lo] drain_sentinel_line [OF done_payload]
        drain_no_newline append_Nil h)
qed

lemma payload_without_content:
  assumes "JSON_parse P j = Some parsed" and "parsed \<noteq> JNull"
  shows "\<exists>c. deltaContent parsed = Inr c
     \<and> (\<not> truthy P c \<longrightarrow> tryBlock P j st = Inr st \<and> delta P j = Inr None)"
  using assms by (cases parsed) (simp_all add: deltaContent_def tryBlock_def delta_def)



lemma delta_syntax: "delta P j = Inl SyntaxError \<longleftrightarrow> JSON_parse P j = None"
  by (auto simp: delta_def deltaContent_def split: option.splits sum.splits json.splits if_splits)

lemma rejected_cases: "rejected P l \<longleftrightarrow> unparsable P l \<or> throwsParsed P l"
proof -
  have "isl (delta P j) \<longleftrightarrow> JSON_parse P j = None \<or> delta P j = Inl TypeError" for j
  proof (cases "delta P j")
    case (Inl e)
    then show ?thesis
      using delta_syntax [of P j] by (cases e) simp_all
  next
    case (Inr x)
    then show ?thesis
      using delta_syntax [of P j] by simp
  qed
  then show ?thesis
    by (auto simp: rejected_def unparsable_def throwsParsed_def payload_def Let_def)
qed

lemma payload_stripCR:
  assumes "payload l = Some j"
  shows "payload (stripCR l) = Some j"
proof -
  define m where "m = stripCR l"
  from assms have m: "\<not> startsWith (asc '':'') m" "trim m \<noteq> []" "startsWith (asc ''data: '') m"
    and j: "j = trim (drop 6 m)"
    by (auto simp: payload_def m_def Let_def split: if_splits)
  show ?thesis
  proof (cases "endsWith [CR] m")
    case False
    then have "stripCR m = m" by (simp add: stripCR_def)
    with m j show ?thesis by (simp add: payload_def Let_def m_def)
  next
    case True
    from data_prefix_head [OF m(3)] obtain t where t: "m = asc ''data: '' @ t" by blast
    from True have last: "last m = CR" by (simp add: endsWith_CR)
    have "t \<noteq> []"
    proof
      assume "t = []"
      with t last show False by (simp add: asc_def ch_def CR_def)
    qed
    moreover from this t last have "last t = CR" by simp
    ultimately obtain u where u: "t = u @ [CR]"
      by (metis append_butlast_last_id)
    have s: "stripCR m = asc ''data: '' @ u"
      using True t u by (simp add: stripCR_def butlast_append)
    have d: "drop 6 m = drop 6 (stripCR m) @ [CR]"
      using t u s by (simp add: asc_def)
    have "trim (drop 6 (stripCR m)) = trim (drop 6 m)"
      unfolding d by (rule trim_snoc_space [OF isWhiteSpace_CR, symmetric])
    moreover have "startsWith (asc ''data: '') (stripCR m)"
      unfolding s by (simp add: startsWith_def asc_def)
    moreover have "\<not> startsWith (asc '':'') (stripCR m)"
      unfolding s by (simp add: startsWith_def asc_def ch_def)
    moreover have "trim (stripCR m) \<noteq> []"
      unfolding s by (simp add: trim_def asc_def ch_def isWhiteSpace_def)
    ultimately show ?thesis
      using j by (simp add: payload_def Let_def m_def)
  qed
qed

lemma unparsable_stripCR: "unparsable P l \<Longrightarrow> unparsable P (stripCR l)"
  by (auto simp: unparsable_def payload_stripCR split: option.splits)

lemma throwsParsed_stripCR:
  "unparsable P l \<Longrightarrow> \<not> throwsParsed P (stripCR l)"
  by (auto simp: unparsable_def throwsParsed_def payload_stripCR delta_syntax [symmetric]
      split: option.splits)

lemma linesFrom_line:
  "NL \<notin> set l \<Longrightarrow> linesFrom acc (l @ NL # rest) = (rev acc @ l) # linesFrom [] rest"
  by (induction l arbitrary: acc) auto

lemma noThrowParsed_line:
  "NL \<notin> set l \<Longrightarrow>
   noThrowParsed P (l @ NL # rest) \<longleftrightarrow> \<not> throwsParsed P l \<and> noThrowParsed P rest"
  by (simp add: noThrowParsed_def linesOf_def linesFrom_line)

lemma requeuedFirst_line:
  "NL \<notin> set l \<Longrightarrow> requeuedFirst P (l @ NL # rest) = unparsable P l"
  by (simp add: requeuedFirst_def indexOf_line)

lemma drain_atRest:
  "noThrowParsed P (textBuffer st @ r) \<Longrightarrow>
   noThrowParsed P (textBuffer (drain P st) @ r) \<and> atRest P (drain P st)"
proof (induction P st rule: drain.induct)
  case (1 P st)
  show ?case
  proof (cases "indexOf NL (textBuffer st)")
    case None
    then show ?thesis
      using "1.prems" by (simp add: drain_no_newline atRest_def indexOf_None_iff)
  next
    case (Some i)
    define l where "l = take i (textBuffer st)"
    define st1 where "st1 = st\<lparr>textBuffer := drop (i + 1) (textBuffer st)\<rparr>"
    obtain fl st2 where body: "loopBody P l st1 = (fl, st2)"
      by (cases "loopBody P l st1")
    have nl: "NL \<notin> set l"
      using indexOf_Some_take [OF Some] by (simp add: l_def)
    have b: "textBuffer st = l @ NL # textBuffer st1"
      using indexOf_split [OF Some] by (simp add: l_def st1_def)
    have d: "drain P st = (case fl of Break \<Rightarrow> st2 | Continue \<Rightarrow> drain P st2)"
      using drain_line [OF nl b, of P] body by (simp add: st1_def)
    from "1.prems" have c: "\<not> throwsParsed P l" "noThrowParsed P (textBuffer st1 @ r)"
      using noThrowParsed_line [OF nl, of P "textBuffer st1 @ r"] by (simp_all add: b)
    show ?thesis
    proof (cases fl)
      case Continue
      from loopBody_Continue [OF body [unfolded Continue]] c
      have "noThrowParsed P (textBuffer st2 @ r)" by simp
      from "1.IH" [OF Some l_def st1_def body [symmetric] Continue this] d Continue
      show ?thesis by simp
    next
      case Break
      from loopBody_Break [OF body [unfolded Break]] show ?thesis
      proof
        assume "isDoneLine l \<and> st2 = st1\<lparr>streamDone := True\<rparr>"
        with d Break c show ?thesis by (simp add: atRest_def)
      next
        assume r: "rejected P l \<and> st2 = st1\<lparr>textBuffer := stripCR l @ [NL] @ textBuffer st1\<rparr>"
        with c have u: "unparsable P l" by (simp add: rejected_cases)
        have n: "NL \<notin> set (stripCR l)"
          using nl stripCR_subset by blast
        have "requeuedFirst P (stripCR l @ NL # textBuffer st1)"
          using n u by (simp add: requeuedFirst_line unparsable_stripCR)
        moreover have "noThrowParsed P (stripCR l @ NL # textBuffer st1 @ r)"
          using n u c by (simp add: noThrowParsed_line throwsParsed_stripCR)
        ultimately show ?thesis
          using d Break r by (simp add: atRest_def)
      qed
    qed
  qed
qed

lemma readLoop_atRest:
  "atRest P st \<Longrightarrow> noThrowParsed P (textBuffer st @ snd (decode dec (concat cs))) \<Longrightarrow>
   atRest P (fst (snd (readLoop P (map Chunk cs) dec st)))"
proof (induction cs arbitrary: st dec)
  case Nil
  then show ?case by simp
next
  case (Cons c cs)
  obtain d1 t where c: "decode dec c = (d1, t)"
    by (cases "decode dec c")
  obtain d2 u where u: "decode d1 (concat cs) = (d2, u)"
    by (cases "decode d1 (concat cs)")
  have all: "snd (decode dec (concat (c # cs))) = t @ u"
    by (simp add: decode_append c u)
  show ?case
  proof (cases "streamDone st")
    case True
    with Cons.prems show ?thesis by simp
  next
    case False
    have "noThrowParsed P (textBuffer (feed t st) @ u)"
      using Cons.prems(2) unfolding all by (simp add: feed_def)
    from drain_atRest [OF this]
    have "atRest P (drain P (feed t st))"
      and "noThrowParsed P (textBuffer (drain P (feed t st)) @ snd (decode d1 (concat cs)))"
      by (simp_all add: u)
    from Cons.IH [OF this] False show ?thesis
      by (simp add: onChunk_feed c)
  qed
qed





section \<open>The claims\<close>

text \<open>
  C6. A line that is empty, or of white space only (the empty line of a CRLF stream
  is a single carriage return), or that begins with a colon, is skipped: the loop body
  returns the state as it was and goes on, so the inner loop does with the buffer what
  it does without the line.
\<close>

theorem skipped_line_changes_nothing:
  "trim line = [] \<or> startsWith (asc '':'') line \<Longrightarrow>
     loopBody P line st = (Continue, st)
     \<and> (NL \<notin> set line \<longrightarrow>
          drain P (st\<lparr>textBuffer := line @ NL # rest\<rparr>) = drain P (st\<lparr>textBuffer := rest\<rparr>))"
proof -
  assume "trim line = [] \<or> startsWith (asc '':'') line"
  then have "trim (stripCR line) = [] \<or> startsWith (asc '':'') (stripCR line)"
    by (auto simp: stripCR_blank stripCR_colon)
  then have body: "loopBody P line s = (Continue, s)" for s
    by (auto simp: loopBody_stripCR Let_def)
  have "drain P (st\<lparr>textBuffer := line @ NL # rest\<rparr>) = drain P (st\<lparr>textBuffer := rest\<rparr>)"
    if "NL \<notin> set line"
    using drain_line [OF that, of "st\<lparr>textBuffer := line @ NL # rest\<rparr>" rest P]
    by (simp add: body)
  with body show ?thesis by simp
qed

theorem skipped_line_changes_nothing_witness:
  "(trim [] = [] \<or> startsWith (asc '':'') [])
   \<and> loopBody lexemes [] (initial []) = (Continue, initial [])
   \<and> (trim (asc '': keep-alive'') = [] \<or> startsWith (asc '':'') (asc '': keep-alive''))
   \<and> loopBody lexemes (asc '': keep-alive'') (initial []) = (Continue, initial [])"
proof -
  have a: "trim [] = [] \<or> startsWith (asc '':'') []"
    by (simp add: trim_def)
  have b: "trim (asc '': keep-alive'') = [] \<or> startsWith (asc '':'') (asc '': keep-alive'')"
    by (simp add: startsWith_def asc_def)
  from skipped_line_changes_nothing [OF a] skipped_line_changes_nothing [OF b] a b
  show ?thesis by blast
qed

text \<open>
  C10. The transcript update replaces the content of the last entry when that entry is
  an assistant message and the transcript has more than one entry, and appends a new
  assistant entry otherwise. The entries before the last one stay as they are, the
  transcript never gets shorter, a transcript of one entry always gains an entry, and
  the loop body changes the transcript by this update only.
\<close>

theorem transcript_update_shape:
  "updater ac prev =
     (if prev \<noteq> [] \<and> role (last prev) = Assistant \<and> 1 < length prev
      then butlast prev @ [(last prev)\<lparr>content := ac\<rparr>]
      else prev @ [\<lparr>role = Assistant, content = ac\<rparr>])
   \<and> take (length prev - 1) (updater ac prev) = butlast prev
   \<and> length prev \<le> length (updater ac prev)
   \<and> (length prev = 1 \<longrightarrow> updater ac prev = prev @ [\<lparr>role = Assistant, content = ac\<rparr>])
   \<and> (messages (snd (loopBody P line st)) = messages st
        \<or> (\<exists>t. messages (snd (loopBody P line st))
              = updater (assistantContent st @ t) (messages st)))"
proof -
  have "take (length prev - 1) (updater ac prev) = butlast prev"
    by (simp add: updater_eq butlast_conv_take)
  moreover have "length prev \<le> length (updater ac prev)"
    by (simp add: updater_eq)
  moreover have "messages (snd (loopBody P line st)) = messages st
      \<or> (\<exists>t. messages (snd (loopBody P line st)) = updater (assistantContent st @ t) (messages st))"
    by (auto simp: loopBody_stripCR Let_def split: sum.splits option.splits)
  ultimately show ?thesis
    by (simp add: updater_eq)
qed

theorem transcript_update_shape_witness:
  "length [\<lparr>role = Assistant, content = asc ''Hello!''\<rparr>] = 1
   \<and> updater (asc ''Hi'') [\<lparr>role = Assistant, content = asc ''Hello!''\<rparr>]
      = [\<lparr>role = Assistant, content = asc ''Hello!''\<rparr>, \<lparr>role = Assistant, content = asc ''Hi''\<rparr>]"
proof -
  have h: "length [\<lparr>role = Assistant, content = asc ''Hello!''\<rparr>] = 1"
    by simp
  from transcript_update_shape [of "asc ''Hi''" "[\<lparr>role = Assistant, content = asc ''Hello!''\<rparr>]"
      lexemes "[]" "initial []"] h
  show ?thesis by simp
qed

text \<open>
  C5. With the user's message last in the transcript, the three lines of the scenario
  add one assistant message, whose content is \<open>Hello\<close>, and nothing else, however
  the reads cut the text of the three lines.
\<close>

theorem hello_scenario:
  "concat cs = helLine @ loLine @ doneLine \<Longrightarrow>
     thrown (streamChat P (Response True (Some (map Chunk cs))) (old @ [\<lparr>role = User, content = u\<rparr>]))
       = None
     \<and> transcript (streamChat P (Response True (Some (map Chunk cs))) (old @ [\<lparr>role = User, content = u\<rparr>]))
       = old @ [\<lparr>role = User, content = u\<rparr>, \<lparr>role = Assistant, content = asc ''Hello''\<rparr>]"
proof -
  assume cs: "concat cs = helLine @ loLine @ doneLine"
  define msgs where "msgs = old @ [\<lparr>role = User, content = u\<rparr>]"
  have "view (reached P cs msgs)
      = view (drain P (feed (decoded (helLine @ loLine @ doneLine)) (initial msgs)))"
    by (simp only: reached_view cs)
  then have "messages (reached P cs msgs) = updater (asc ''Hello'') (updater (asc ''Hel'') msgs)"
    by (simp add: drain_scenario view_def)
  also have "\<dots> = old @ [\<lparr>role = User, content = u\<rparr>, \<lparr>role = Assistant, content = asc ''Hello''\<rparr>]"
    by (simp add: updater_eq msgs_def butlast_append)
  finally show ?thesis
    by (simp add: streamChat_chunks msgs_def)
qed

theorem hello_scenario_witness:
  "concat [helLine, loLine, doneLine] = helLine @ loLine @ doneLine
   \<and> transcript (streamChat lexemes (Response True (Some [Chunk helLine, Chunk loLine, Chunk doneLine]))
        [\<lparr>role = User, content = asc ''hi''\<rparr>])
      = [\<lparr>role = User, content = asc ''hi''\<rparr>, \<lparr>role = Assistant, content = asc ''Hello''\<rparr>]"
proof -
  have h: "concat [helLine, loLine, doneLine] = helLine @ loLine @ doneLine"
    by simp
  from hello_scenario [OF h, of lexemes "[]" "asc ''hi''"] h show ?thesis
    by simp
qed

text \<open>
  C4. When the response is not ok, or has no body, \<open>streamChat\<close> throws before the
  reader exists: the transcript is as it was and the whole body is unread. The caller
  then appends, after the user's message, the assistant message with the fixed text
  \<open>Sorry, I encountered an error. Please try again.\<close>, and clears the busy flag.
\<close>

theorem failed_handshake:
  "\<not> ok \<or> body = None \<Longrightarrow>
     streamChat P (Response ok body) msgs =
       \<lparr>thrown = Some FailedToStartStream, transcript = msgs,
        unread = (case body of None \<Rightarrow> [] | Some reads \<Rightarrow> reads)\<rparr>
     \<and> (trim (input ui) \<noteq> [] \<and> \<not> isLoading ui \<longrightarrow>
          handleSend P (Response ok body) ui =
            \<lparr>shown = shown ui @
               [\<lparr>role = User, content = input ui\<rparr>,
                \<lparr>role = Assistant,
                 content = asc ''Sorry, I encountered an error. Please try again.''\<rparr>],
             input = [], isLoading = False\<rparr>)"
  by (auto simp: streamChat_def handleSend_def Let_def split: option.splits)

theorem failed_handshake_witness:
  "streamChat lexemes (Response False (Some [Chunk helLine])) [] =
       \<lparr>thrown = Some FailedToStartStream, transcript = [], unread = [Chunk helLine]\<rparr>
   \<and> trim (asc ''help'') \<noteq> []
   \<and> handleSend lexemes (Response False (Some [Chunk helLine]))
        \<lparr>shown = [], input = asc ''help'', isLoading = False\<rparr> =
       \<lparr>shown = [\<lparr>role = User, content = asc ''help''\<rparr>,
                 \<lparr>role = Assistant,
                  content = asc ''Sorry, I encountered an error. Please try again.''\<rparr>],
        input = [], isLoading = False\<rparr>"
proof -
  have h: "\<not> False \<or> Some [Chunk helLine] = None" by simp
  have t: "trim (asc ''help'') \<noteq> []" by code_simp
  from failed_handshake [OF h, of lexemes "[]" "\<lparr>shown = [], input = asc ''help'', isLoading = False\<rparr>"] t
  show ?thesis by simp
qed

text \<open>
  C3. A line whose payload is the sentinel sets \<open>streamDone\<close> and ends both loops:
  the loop body changes nothing else, the inner loop leaves what follows the line in
  the buffer unprocessed, and the outer loop makes no further read. So when the lines
  before the sentinel line have been consumed, the content and the transcript of a
  stream are those of that moment, whatever follows the sentinel line, in the same
  chunk or in later ones.
\<close>

theorem done_halts_mutation:
  "isDoneLine l \<Longrightarrow> NL \<notin> set l \<Longrightarrow>
     loopBody P l st = (Break, st\<lparr>streamDone := True\<rparr>)
     \<and> drain P (st\<lparr>textBuffer := l @ NL # rest\<rparr>) = st\<lparr>textBuffer := rest, streamDone := True\<rparr>
     \<and> readLoop P rs dec (st\<lparr>textBuffer := rest, streamDone := True\<rparr>)
         = (None, st\<lparr>textBuffer := rest, streamDone := True\<rparr>, rs)
     \<and> (textBuffer (drain P (feed pre (initial msgs))) = []
          \<and> \<not> streamDone (drain P (feed pre (initial msgs)))
          \<and> decoded (concat cs) = pre @ l @ NL # post \<longrightarrow>
          streamDone (reached P cs msgs)
          \<and> assistantContent (reached P cs msgs) = assistantContent (drain P (feed pre (initial msgs)))
          \<and> messages (reached P cs msgs) = messages (drain P (feed pre (initial msgs))))"
proof -
  assume l: "isDoneLine l" and nl: "NL \<notin> set l"
  have "view (reached P cs msgs) = (True, assistantContent (drain P (feed pre (initial msgs))),
      messages (drain P (feed pre (initial msgs))))"
    if e: "textBuffer (drain P (feed pre (initial msgs))) = []"
      and nd: "\<not> streamDone (drain P (feed pre (initial msgs)))"
      and cs: "decoded (concat cs) = pre @ l @ NL # post"
  proof -
    define D where "D = drain P (feed pre (initial msgs))"
    have i: "\<not> streamDone (initial msgs)" by (simp add: initial_def)
    have "feed (l @ NL # post) D = D\<lparr>textBuffer := l @ NL # post\<rparr>"
      using e by (simp add: feed_def D_def)
    then have dd: "drain P (feed (l @ NL # post) D) = D\<lparr>textBuffer := post, streamDone := True\<rparr>"
      by (simp add: drain_done_line [OF l nl])
    have "view (reached P cs msgs) = view (drain P (feed (pre @ l @ NL # post) (initial msgs)))"
      by (simp only: reached_view cs)
    also have "\<dots> = view (drain P (feed (l @ NL # post) D))"
      unfolding D_def by (rule drain_feed_prefix [OF i e nd])
    also have "\<dots> = (True, assistantContent D, messages D)"
      by (simp add: dd view_def)
    finally show ?thesis by (simp only: D_def)
  qed
  then show ?thesis
    by (simp add: loopBody_done [OF l] drain_done_line [OF l nl] readLoop_done view_def)
qed

theorem done_halts_mutation_witness:
  "isDoneLine (asc ''data: [DONE]'')
   \<and> NL \<notin> set (asc ''data: [DONE]'')
   \<and> textBuffer (drain lexemes (feed (decoded helLine) (initial []))) = []
   \<and> \<not> streamDone (drain lexemes (feed (decoded helLine) (initial [])))
   \<and> decoded (concat [helLine @ ''data: [DONE]'', CHR 0x0A # loLine, loLine])
       = decoded helLine @ asc ''data: [DONE]'' @ NL # decoded (loLine @ loLine)
   \<and> streamDone (reached lexemes [helLine @ ''data: [DONE]'', CHR 0x0A # loLine, loLine] [])
   \<and> assistantContent (reached lexemes [helLine @ ''data: [DONE]'', CHR 0x0A # loLine, loLine] [])
       = asc ''Hel''
   \<and> messages (reached lexemes [helLine @ ''data: [DONE]'', CHR 0x0A # loLine, loLine] [])
       = [\<lparr>role = Assistant, content = asc ''Hel''\<rparr>]"
proof -
  have a: "isDoneLine (asc ''data: [DONE]'')" by code_simp
  have b: "NL \<notin> set (asc ''data: [DONE]'')" by code_simp
  have c: "textBuffer (drain lexemes (feed (decoded helLine) (initial []))) = []" by code_simp
  have d: "\<not> streamDone (drain lexemes (feed (decoded helLine) (initial [])))" by code_simp
  have e: "decoded (concat [helLine @ ''data: [DONE]'', CHR 0x0A # loLine, loLine])
      = decoded helLine @ asc ''data: [DONE]'' @ NL # decoded (loLine @ loLine)"
    by code_simp
  have f: "assistantContent (drain lexemes (feed (decoded helLine) (initial []))) = asc ''Hel''"
    by code_simp
  have g: "messages (drain lexemes (feed (decoded helLine) (initial [])))
      = [\<lparr>role = Assistant, content = asc ''Hel''\<rparr>]"
    by code_simp
  from done_halts_mutation [OF a b, of lexemes "initial []" "[]" "[]" newDecoder "decoded helLine" "[]"
      "[helLine @ ''data: [DONE]'', CHR 0x0A # loLine, loLine]" "decoded (loLine @ loLine)"]
    a b c d e f g
  show ?thesis by simp
qed

text \<open>
  C2. The content and the transcript that a stream ends with depend on the bytes of
  the stream only, not on where the reads cut them: two lists of byte chunks with the
  same concatenation give the same \<open>assistantContent\<close>, the same \<open>messages\<close> and
  the same transcript, also when a cut falls inside a character of several bytes, which
  the one decoder of \<open>streamChat\<close> completes at the next read. No condition on the
  lines is needed for this.
\<close>

theorem chunk_boundary_invariance:
  "concat cs1 = concat cs2 \<Longrightarrow>
     assistantContent (reached P cs1 msgs) = assistantContent (reached P cs2 msgs)
     \<and> messages (reached P cs1 msgs) = messages (reached P cs2 msgs)
     \<and> transcript (streamChat P (Response True (Some (map Chunk cs1))) msgs)
         = transcript (streamChat P (Response True (Some (map Chunk cs2))) msgs)"
proof -
  assume "concat cs1 = concat cs2"
  then have "view (reached P cs1 msgs) = view (reached P cs2 msgs)"
    by (simp only: reached_view)
  then show ?thesis
    by (simp add: view_def streamChat_chunks)
qed

theorem chunk_boundary_invariance_witness:
  "concat [accentHead, accentTail @ helHead, helTail @ doneLine]
     = concat [accentHead @ accentTail @ helLine @ doneLine]
   \<and> assistantContent (reached lexemes [accentHead @ accentTail @ helLine @ doneLine] [])
       = 233 # asc ''Hel''
   \<and> assistantContent (reached lexemes [accentHead, accentTail @ helHead, helTail @ doneLine] [])
       = 233 # asc ''Hel''"
proof -
  have h: "concat [accentHead, accentTail @ helHead, helTail @ doneLine]
      = concat [accentHead @ accentTail @ helLine @ doneLine]"
    by (simp add: helHead_def helTail_def helLine_def)
  have v: "assistantContent (reached lexemes [accentHead @ accentTail @ helLine @ doneLine] [])
      = 233 # asc ''Hel''"
    by code_simp
  from chunk_boundary_invariance [OF h, of lexemes "[]"] h v show ?thesis
    by simp
qed

text \<open>
  C8. The claim fails as it stands, on both of its readings: behind a requeued line,
  and behind the sentinel line, a complete and well-formed data line stays in the
  buffer and is never processed. What holds, for a stream in which no data line has a
  payload that parses and then throws in the \<open>try\<close> block (the case of C7, of which
  nothing is said here): at every suspension point, and when the loop has ended, the
  buffer has no newline, or the sentinel has been seen, or the first complete line of
  the buffer is a data line whose payload \<open>JSON.parse\<close> does not accept.
\<close>

theorem buffer_between_reads:
  "noThrowParsed P (decoded (concat cs)) \<Longrightarrow> atRest P (reached P cs msgs)"
proof -
  assume "noThrowParsed P (decoded (concat cs))"
  then have "noThrowParsed P (textBuffer (initial msgs) @ snd (decode newDecoder (concat cs)))"
    by (simp add: initial_def decoded_def)
  moreover have "atRest P (initial msgs)"
    by (simp add: atRest_def initial_def)
  ultimately show ?thesis
    unfolding reached_def by (rule readLoop_atRest [rotated])
qed

theorem buffer_between_reads_witness:
  "noThrowParsed lexemes (decoded (concat [helLine @ braceLine, helLine]))
   \<and> atRest lexemes (reached lexemes [helLine @ braceLine, helLine] [])
   \<and> requeuedFirst lexemes (textBuffer (reached lexemes [helLine @ braceLine, helLine] []))"
proof -
  have h: "noThrowParsed lexemes (decoded (concat [helLine @ braceLine, helLine]))"
    by code_simp
  have r: "requeuedFirst lexemes (textBuffer (reached lexemes [helLine @ braceLine, helLine] []))"
    by code_simp
  from buffer_between_reads [OF h, of "[]"] h r show ?thesis
    by simp
qed

theorem complete_lines_left_in_buffer:
  \<open>delta lexemes (asc ''{"choices":[{"delta":{"content":"Hel"}}]}'') = Inr (Some (asc ''Hel''))
   \<and> textBuffer (reached lexemes [braceLine @ helLine] []) = decoded (braceLine @ helLine)
   \<and> \<not> streamDone (reached lexemes [braceLine @ helLine] [])
   \<and> assistantContent (reached lexemes [braceLine @ helLine] []) = []
   \<and> textBuffer (reached lexemes [doneLine @ helLine] []) = decoded helLine
   \<and> streamDone (reached lexemes [doneLine @ helLine] [])
   \<and> assistantContent (reached lexemes [doneLine @ helLine] []) = []\<close>
  by code_simp






text \<open>
  C7. The payload \<open>null\<close> parses, and has no \<open>choices[0].delta.content\<close>; yet
  the first property access throws on it, the \<open>catch\<close> puts the line back and stops
  the extraction, and since each later read finds the same line first, no line after it is
  ever processed: the stream below ends with the transcript it started with.
\<close>

theorem null_payload_is_requeued:
  "JSON_parse P (asc ''null'') = Some JNull
   \<and> decoded nullLine = asc ''data: null'' @ [NL]
   \<and> loopBody P (asc ''data: null'') st
       = (Break, st\<lparr>textBuffer := asc ''data: null'' @ [NL] @ textBuffer st\<rparr>)
   \<and> transcript (streamChat P (Response True
        (Some [Chunk nullLine, Chunk helLine, Chunk loLine, Chunk doneLine])) msgs)
       = msgs"
proof -
  have a: "stripCR (asc ''data: '' @ asc ''null'') = asc ''data: '' @ asc ''null''"
    "trim (asc ''null'') = asc ''null''" "asc ''null'' \<noteq> asc ''[DONE]''"
    by code_simp+
  have "asc ''data: null'' = asc ''data: '' @ asc ''null''"
    by (simp add: asc_def)
  then have "loopBody P (asc ''data: null'') st
      = (Break, st\<lparr>textBuffer := asc ''data: null'' @ [NL] @ textBuffer st\<rparr>)"
    by (simp add: loopBody_data [OF a] delta_null)
  moreover have "transcript (streamChat P (Response True
        (Some [Chunk nullLine, Chunk helLine, Chunk loLine, Chunk doneLine])) msgs)
       = msgs"
    by code_simp
  moreover have "decoded nullLine = asc ''data: null'' @ [NL]"
    by code_simp
  ultimately show ?thesis
    by (simp add: JSON_parse_null)
qed

end
